theory Spec2Isabelle
  imports Main "HOL-Library.Word"
begin

section \<open>Buffers, errors and the external collaborators\<close>

text \<open>
  A Node \<open>Buffer\<close> is a sequence of bytes. The digest (\<open>new SHA3(256)\<close> of the
  package \<open>sha3\<close>) is not code of the repository: every operation that hashes takes
  it as the parameter \<open>sha\<close>, a function from the bytes fed to \<open>update\<close> to the
  bytes \<open>digest()\<close> returns. The relational operator \<open><=\<close> that \<open>verify\<close>
  applies to two Buffer objects is the runtime's (it compares the objects' string
  conversions); it is the parameter \<open>leq\<close>.
\<close>

type_synonym byte = "8 word"

type_synonym buffer = "byte list"

type_synonym digest = "buffer \<Rightarrow> buffer"

datatype error =
    EmptyTree
  | ElementNotFound
  | NotBufferArray
  | Invariant string

text \<open>\<open>const EMPTY = Buffer.from([])\<close>\<close>

definition EMPTY :: buffer where
  "EMPTY = []"

text \<open>
  \<open>getPairElement\<close>: the sibling of position \<open>idx\<close>, \<open>null\<close> (here \<open>None\<close>)
  when it lies past the end. An element read inside the bounds is a Buffer object, which
  is truthy also when it has no bytes, so \<open>invariant(pairEl)\<close> cannot throw.
\<close>

definition getPairElement :: "nat \<Rightarrow> buffer list \<Rightarrow> buffer option" where
  "getPairElement idx layer =
     (let pairIdx = (if idx mod 2 = 0 then idx + 1 else idx - 1)
      in if pairIdx < length layer then Some (layer ! pairIdx) else None)"

subsection \<open>Hex encoding\<close>

text \<open>\<open>buf.toString('hex')\<close>: two lowercase hex digits for each byte.\<close>

definition hexDigit :: "nat \<Rightarrow> char" where
  "hexDigit n = ''0123456789abcdef'' ! n"

fun toHex :: "buffer \<Rightarrow> string" where
  "toHex [] = []"
| "toHex (b # bs) = hexDigit (unat b div 16) # hexDigit (unat b mod 16) # toHex bs"

text \<open>
  \<open>bufArrToHexArr\<close>. The model's arrays hold buffers only, so the guard
  \<open>arr.some((el) => !Buffer.isBuffer(el))\<close> is false.
\<close>

definition bufArrToHexArr :: "buffer list \<Rightarrow> error + string list" where
  "bufArrToHexArr arr =
     (if list_ex (\<lambda>el. False) arr then Inl NotBufferArray
      else Inr (map (\<lambda>el. ''0x'' @ toHex el) arr))"

subsection \<open>Sorting and concatenating\<close>

text \<open>\<open>Buffer.compare\<close>: bytewise, unsigned; a proper prefix is smaller.\<close>

fun buffer_compare :: "buffer \<Rightarrow> buffer \<Rightarrow> int" where
  "buffer_compare [] [] = 0"
| "buffer_compare [] (y # ys) = - 1"
| "buffer_compare (x # xs) [] = 1"
| "buffer_compare (x # xs) (y # ys) =
     (if x < y then - 1 else if y < x then 1 else buffer_compare xs ys)"

text \<open>\<open>Array.prototype.sort(cmp)\<close> is a stable sort: here, insertion sort.\<close>

fun insert_sorted :: "('a \<Rightarrow> 'a \<Rightarrow> int) \<Rightarrow> 'a \<Rightarrow> 'a list \<Rightarrow> 'a list" where
  "insert_sorted cmp x [] = [x]"
| "insert_sorted cmp x (y # ys) =
     (if cmp x y \<le> 0 then x # y # ys else y # insert_sorted cmp x ys)"

definition sort_with :: "('a \<Rightarrow> 'a \<Rightarrow> int) \<Rightarrow> 'a list \<Rightarrow> 'a list" where
  "sort_with cmp xs = foldr (insert_sorted cmp) xs []"

definition sortAndConcat :: "buffer list \<Rightarrow> buffer" where
  "sortAndConcat args = concat (sort_with buffer_compare args)"

subsection \<open>The pairwise hash\<close>

text \<open>
  \<open>combinedHash(first, second)\<close>. An argument is a Buffer object or \<open>undefined\<close>
  (\<open>None\<close>): \<open>!first\<close> holds for \<open>undefined\<close> only, since every object is truthy,
  the zero-length Buffer too.
\<close>

definition combinedHash :: "digest \<Rightarrow> buffer option \<Rightarrow> buffer option \<Rightarrow> error + buffer" where
  "combinedHash sha first second =
     (case first of
        None \<Rightarrow>
          (case second of
             None \<Rightarrow> Inl (Invariant ''second element of pair must exist'')
           | Some s \<Rightarrow> Inr (sha s))
      | Some f \<Rightarrow>
          (case second of
             None \<Rightarrow> Inr (sha f)
           | Some s \<Rightarrow> Inr (sha (sortAndConcat [f, s]))))"

section \<open>The tree\<close>

record tree =
  elements :: "buffer list"
  bufferElementPositionIndex :: "string \<rightharpoonup> nat"
  layers :: "buffer list list"

text \<open>
  The \<open>reduce\<close> of the constructor: \<open>memo[el.toString('hex')] = index\<close> for each
  position in turn, so a later position overwrites an earlier one with the same key.
\<close>

fun positionIndex :: "(string \<rightharpoonup> nat) \<Rightarrow> nat \<Rightarrow> buffer list \<Rightarrow> (string \<rightharpoonup> nat)" where
  "positionIndex memo index [] = memo"
| "positionIndex memo index (el # rest) =
     positionIndex (memo(toHex el \<mapsto> index)) (Suc index) rest"

text \<open>
  The \<open>reduce\<close> of \<open>getNextLayer\<close>, at position \<open>idx\<close> of \<open>arr\<close> with the elements
  from there on still to visit: on an even position it pushes
  \<open>combinedHash(el, arr[idx + 1])\<close>, where a read past the end is \<open>undefined\<close>.
\<close>

fun reduceLayer ::
  "digest \<Rightarrow> buffer list \<Rightarrow> nat \<Rightarrow> buffer list \<Rightarrow> buffer list \<Rightarrow> error + buffer list" where
  "reduceLayer sha arr idx [] layer = Inr layer"
| "reduceLayer sha arr idx (el # rest) layer =
     (if idx mod 2 = 0 then
        (let pairEl = (if idx + 1 < length arr then Some (arr ! (idx + 1)) else None)
         in case combinedHash sha (Some el) pairEl of
              Inl e \<Rightarrow> Inl e
            | Inr h \<Rightarrow> reduceLayer sha arr (Suc idx) rest (layer @ [h]))
      else reduceLayer sha arr (Suc idx) rest layer)"

text \<open>
  \<open>getNextLayer(elements)\<close> pushes \<open>EMPTY\<close> onto its argument when the length is odd:
  the caller's array changes. The model returns the argument as the call leaves it,
  and the new layer.
\<close>

definition getNextLayer :: "digest \<Rightarrow> buffer list \<Rightarrow> error + (buffer list \<times> buffer list)" where
  "getNextLayer sha elems =
     (let arr = (if length elems mod 2 = 1 then elems @ [EMPTY] else elems)
      in case reduceLayer sha arr 0 arr [] of
           Inl e \<Rightarrow> Inl e
         | Inr layer \<Rightarrow> Inr (arr, layer))"

subsection \<open>What \<open>getNextLayer\<close> computes\<close>

text \<open>
  The padding of \<open>getNextLayer\<close> and of the constructor, and the result of the
  \<open>reduce\<close> in closed form. Both are auxiliary: \<open>getNextLayer_eq\<close> relates them to
  the code's loop.
\<close>

definition padEven :: "buffer list \<Rightarrow> buffer list" where
  "padEven xs = (if length xs mod 2 = 1 then xs @ [EMPTY] else xs)"

fun pairUp :: "digest \<Rightarrow> buffer list \<Rightarrow> buffer list" where
  "pairUp sha [] = []"
| "pairUp sha [a] = [sha a]"
| "pairUp sha (a # b # rest) = sha (sortAndConcat [a, b]) # pairUp sha rest"

lemma reduceLayer_pairUp:
  "arr = pre @ xs \<Longrightarrow> even (length pre) \<Longrightarrow>
   reduceLayer sha arr (length pre) xs layer = Inr (layer @ pairUp sha xs)"
proof (induction sha xs arbitrary: pre layer rule: pairUp.induct)
  case (1 sha)
  then show ?case by simp
next
  case (2 sha a)
  then have "length pre mod 2 = 0" by presburger
  with 2 show ?case by (simp add: combinedHash_def)
next
  case (3 sha a b rest)
  have arr: "arr = (pre @ [a, b]) @ rest" using 3 by simp
  have ev: "even (length (pre @ [a, b]))" using 3 by simp
  have nth: "arr ! Suc (length pre) = b" using 3(2)
    by (simp add: nth_append)
  have m0: "length pre mod 2 = 0" using 3(3) by presburger
  have m1: "Suc (length pre) mod 2 = 1" using 3(3) by presburger
  from "3.IH"[OF arr ev, of "layer @ [sha (sortAndConcat [a, b])]"] 3(2) nth m0 m1
  show ?case by (simp add: combinedHash_def)
qed

lemma getNextLayer_eq:
  "getNextLayer sha elems = Inr (padEven elems, pairUp sha (padEven elems))"
  using reduceLayer_pairUp[of "padEven elems" "[]" "padEven elems" sha "[]"]
  by (simp add: getNextLayer_def padEven_def Let_def)

lemma length_pairUp: "length (pairUp sha xs) = (length xs + 1) div 2"
  by (induction sha xs rule: pairUp.induct) simp_all

lemma length_padEven: "length (padEven xs) = length xs + length xs mod 2"
  by (simp add: padEven_def)

lemma getNextLayer_shrinks:
  assumes "getNextLayer sha elems = Inr (cur, next)" "1 < length elems"
  shows "length next < length elems"
proof -
  have "next = pairUp sha (padEven elems)" using assms(1) by (auto simp: getNextLayer_eq)
  then have "length next = (length elems + length elems mod 2 + 1) div 2"
    by (simp add: length_pairUp length_padEven)
  then show ?thesis using assms(2) by presburger
qed

subsection \<open>Construction\<close>

text \<open>
  The loop of \<open>getLayers\<close>: while the last layer has more than one element, call
  \<open>getNextLayer\<close> on it (which may pad that stored layer in place) and push the
  result.
\<close>

function layersLoop :: "digest \<Rightarrow> buffer list list \<Rightarrow> error + buffer list list" where
  "layersLoop sha ls =
     (if 1 < (case ls of [] \<Rightarrow> 0 | _ # _ \<Rightarrow> length (last ls)) then
        (case getNextLayer sha (last ls) of
           Inl e \<Rightarrow> Inl e
         | Inr (cur, next) \<Rightarrow> layersLoop sha (butlast ls @ [cur, next]))
      else Inr ls)"
  by pat_completeness auto
termination
proof (relation "measure (\<lambda>(sha, ls). length (last ls))")
  show "wf (measure (\<lambda>(sha, ls). length (last ls)))" by simp
next
  fix sha :: digest and ls :: "buffer list list" and x2 x y
  assume a: "1 < (case ls of [] \<Rightarrow> 0 | _ # _ \<Rightarrow> length (last ls))"
     and b: "getNextLayer sha (last ls) = Inr x2" and c: "(x, y) = x2"
  from a have "1 < length (last ls)" by (cases ls) auto
  with b c have "length y < length (last ls)"
    using getNextLayer_shrinks[of sha "last ls" x y] by simp
  then show "((sha, butlast ls @ [x, y]), (sha, ls)) \<in> measure (\<lambda>(sha, ls). length (last ls))"
    by simp
qed

declare layersLoop.simps [simp del]

definition getLayers :: "digest \<Rightarrow> buffer list \<Rightarrow> error + buffer list list" where
  "getLayers sha elems =
     (if length elems = 0 then Inl EmptyTree else layersLoop sha [elems])"

text \<open>
  The constructor. \<open>this._elements\<close> and \<open>this._layers[0]\<close> are one array object, so
  after \<open>getLayers\<close> the field \<open>elements\<close> is the first layer as the loop left it.
\<close>

definition MerkleTree :: "digest \<Rightarrow> buffer list \<Rightarrow> error + tree" where
  "MerkleTree sha elems =
     (let original_elements = (if length elems mod 2 = 1 then elems @ [EMPTY] else elems);
          index = positionIndex Map.empty 0 original_elements
      in case getLayers sha original_elements of
           Inl e \<Rightarrow> Inl e
         | Inr ls \<Rightarrow>
             Inr \<lparr> elements = (case ls of [] \<Rightarrow> original_elements | l0 # _ \<Rightarrow> l0),
                   bufferElementPositionIndex = index,
                   layers = ls \<rparr>)"

text \<open>
  The number of digests a construction computes. Every push of the \<open>reduce\<close> in
  \<open>getNextLayer\<close> follows one call of \<open>combinedHash\<close> with its first argument
  present, and such a call runs \<open>sha256.update(...).digest()\<close> once. The functions
  below follow the constructor, \<open>getLayers\<close> and \<open>getNextLayer\<close> and count these
  calls.
\<close>

fun reduceLayerDigests :: "nat \<Rightarrow> buffer list \<Rightarrow> nat" where
  "reduceLayerDigests idx [] = 0"
| "reduceLayerDigests idx (el # rest) =
     (if idx mod 2 = 0 then 1 else 0) + reduceLayerDigests (Suc idx) rest"

function layersLoopDigests :: "digest \<Rightarrow> buffer list list \<Rightarrow> nat" where
  "layersLoopDigests sha ls =
     (if 1 < (case ls of [] \<Rightarrow> 0 | _ # _ \<Rightarrow> length (last ls)) then
        (case getNextLayer sha (last ls) of
           Inl e \<Rightarrow> 0
         | Inr (cur, next) \<Rightarrow>
             reduceLayerDigests 0 cur + layersLoopDigests sha (butlast ls @ [cur, next]))
      else 0)"
  by pat_completeness auto
termination
proof (relation "measure (\<lambda>(sha, ls). length (last ls))")
  show "wf (measure (\<lambda>(sha, ls). length (last ls)))" by simp
next
  fix sha :: digest and ls :: "buffer list list" and x2 x y
  assume a: "1 < (case ls of [] \<Rightarrow> 0 | _ # _ \<Rightarrow> length (last ls))"
     and b: "getNextLayer sha (last ls) = Inr x2" and c: "(x, y) = x2"
  from a have "1 < length (last ls)" by (cases ls) auto
  with b c have "length y < length (last ls)"
    using getNextLayer_shrinks[of sha "last ls" x y] by simp
  then show "((sha, butlast ls @ [x, y]), (sha, ls)) \<in> measure (\<lambda>(sha, ls). length (last ls))"
    by simp
qed

declare layersLoopDigests.simps [simp del]

definition constructionDigests :: "digest \<Rightarrow> buffer list \<Rightarrow> nat" where
  "constructionDigests sha elems =
     (let original_elements = (if length elems mod 2 = 1 then elems @ [EMPTY] else elems)
      in if length original_elements = 0 then 0
         else layersLoopDigests sha [original_elements])"

text \<open>\<open>getRoot\<close>: \<open>this._layers[this._layers.length - 1]?.[0]\<close>, which must exist.\<close>

definition getRoot :: "tree \<Rightarrow> error + buffer" where
  "getRoot t =
     (case layers t of
        [] \<Rightarrow> Inl (Invariant ''root'')
      | _ # _ \<Rightarrow>
          (case last (layers t) of
             [] \<Rightarrow> Inl (Invariant ''root'')
           | root # _ \<Rightarrow> Inr root))"

definition getHexRoot :: "tree \<Rightarrow> error + string" where
  "getHexRoot t = (case getRoot t of Inl e \<Rightarrow> Inl e | Inr root \<Rightarrow> Inr (toHex root))"

subsection \<open>Proofs\<close>

text \<open>
  The loop of \<open>getProof\<close>. It returns the proof and the array it was started on as
  the first call of \<open>getNextLayer\<close> leaves it; the arrays of the later rounds are
  fresh ones that nothing else refers to.
\<close>

function proofLoop ::
  "digest \<Rightarrow> nat \<Rightarrow> buffer list \<Rightarrow> buffer list \<Rightarrow> error + (buffer list \<times> buffer list)" where
  "proofLoop sha idx current_layer result =
     (if 1 < length current_layer then
        (let pairElement = getPairElement idx current_layer;
             result' = result @ [case pairElement of Some p \<Rightarrow> p | None \<Rightarrow> []]
         in case getNextLayer sha current_layer of
              Inl e \<Rightarrow> Inl e
            | Inr (cur, next) \<Rightarrow>
                (case proofLoop sha (idx div 2) next result' of
                   Inl e \<Rightarrow> Inl e
                 | Inr (res, _) \<Rightarrow> Inr (res, cur)))
      else Inr (result, current_layer))"
  by pat_completeness auto
termination
proof (relation "measure (\<lambda>(sha, idx, cur, res). length cur)")
  show "wf (measure (\<lambda>(sha, idx, cur, res). length cur))" by simp
next
  fix sha :: digest and idx :: nat and current_layer result :: "buffer list"
    and x xa x2 xb y
  assume "1 < length current_layer"
     and "getNextLayer sha current_layer = Inr x2" and "(xb, y) = x2"
  then have "length y < length current_layer"
    using getNextLayer_shrinks[of sha current_layer xb y] by simp
  then show "((sha, idx div 2, y, xa), (sha, idx, current_layer, result))
      \<in> measure (\<lambda>(sha, idx, cur, res). length cur)"
    by simp
qed

declare proofLoop.simps [simp del]

text \<open>
  \<open>getProof(el)\<close>: the proof, and the tree as the call leaves it (the loop starts on
  \<open>this._elements\<close>, the array that is also \<open>this._layers[0]\<close>).
\<close>

definition getProof :: "digest \<Rightarrow> tree \<Rightarrow> buffer \<Rightarrow> error + (buffer list \<times> tree)" where
  "getProof sha t el =
     (case bufferElementPositionIndex t (toHex el) of
        None \<Rightarrow> Inl ElementNotFound
      | Some initialIdx \<Rightarrow>
          (case proofLoop sha initialIdx (elements t) [] of
             Inl e \<Rightarrow> Inl e
           | Inr (result, els) \<Rightarrow>
               Inr (result,
                    t\<lparr> elements := els,
                       layers := (case layers t of [] \<Rightarrow> [] | _ # upper \<Rightarrow> els # upper) \<rparr>)))"

definition getHexProof :: "digest \<Rightarrow> tree \<Rightarrow> buffer \<Rightarrow> error + (string list \<times> tree)" where
  "getHexProof sha t el =
     (case getProof sha t el of
        Inl e \<Rightarrow> Inl e
      | Inr (pf, t') \<Rightarrow>
          (case bufArrToHexArr pf of Inl e \<Rightarrow> Inl e | Inr hs \<Rightarrow> Inr (hs, t')))"

subsection \<open>Verification\<close>

text \<open>
  \<open>verify(proof, leaf)\<close> is a method of the tree: it folds the proof into
  \<open>computedHash\<close> and compares the result with \<open>this.getRoot()\<close>.
\<close>

fun verifyLoop ::
  "digest \<Rightarrow> (buffer \<Rightarrow> buffer \<Rightarrow> bool) \<Rightarrow> buffer list \<Rightarrow> buffer \<Rightarrow> error + buffer" where
  "verifyLoop sha leq [] computedHash = Inr computedHash"
| "verifyLoop sha leq (element # rest) computedHash =
     (case (if leq computedHash element
            then combinedHash sha (Some computedHash) (Some element)
            else combinedHash sha (Some element) (Some computedHash)) of
        Inl e \<Rightarrow> Inl e
      | Inr h \<Rightarrow> verifyLoop sha leq rest h)"

definition verify ::
  "digest \<Rightarrow> (buffer \<Rightarrow> buffer \<Rightarrow> bool) \<Rightarrow> tree \<Rightarrow> buffer list \<Rightarrow> buffer \<Rightarrow> error + bool" where
  "verify sha leq t pf leaf =
     (case verifyLoop sha leq pf leaf of
        Inl e \<Rightarrow> Inl e
      | Inr computedHash \<Rightarrow>
          (case getRoot t of Inl e \<Rightarrow> Inl e | Inr root \<Rightarrow> Inr (computedHash = root)))"

subsection \<open>Sample collaborators\<close>

text \<open>
  A stand-in for the digest and for the runtime's \<open><=\<close>, to run the model on concrete
  leaves: \<open>sampleDigest\<close> returns 32 bytes (the length of its input, then the input
  cut or zero-filled to 31 bytes), \<open>sampleLeq\<close> is \<open>Buffer.compare(a, b) <= 0\<close>.
  The general theorems below hold for every digest and every relation.
\<close>

definition sampleDigest :: digest where
  "sampleDigest b = of_nat (length b) # take 31 (b @ replicate 31 0)"

definition sampleLeq :: "buffer \<Rightarrow> buffer \<Rightarrow> bool" where
  "sampleLeq a b = (buffer_compare a b \<le> 0)"

section \<open>Auxiliary facts\<close>

subsection \<open>Sorted concatenation and the fold of \<open>verify\<close>\<close>

lemma buffer_compare_flip: "buffer_compare b a = - buffer_compare a b"
  by (induction a b rule: buffer_compare.induct) auto

lemma buffer_compare_zero: "buffer_compare a b = 0 \<Longrightarrow> a = b"
  by (induction a b rule: buffer_compare.induct) (auto split: if_splits)

lemma sortAndConcat_pair:
  "sortAndConcat [a, b] = (if buffer_compare a b \<le> 0 then a @ b else b @ a)"
  by (simp add: sortAndConcat_def sort_with_def)

lemma sortAndConcat_commute: "sortAndConcat [a, b] = sortAndConcat [b, a]"
proof -
  consider "buffer_compare a b < 0" | "buffer_compare a b = 0" | "0 < buffer_compare a b"
    by linarith
  then show ?thesis
  proof cases
    case 1
    then show ?thesis using buffer_compare_flip[of b a] by (simp add: sortAndConcat_pair)
  next
    case 2
    then show ?thesis using buffer_compare_zero[of a b] by simp
  next
    case 3
    then show ?thesis using buffer_compare_flip[of b a] by (simp add: sortAndConcat_pair)
  qed
qed

lemma sortAndConcat_EMPTY: "sortAndConcat [c, EMPTY] = c"
  by (cases c) (simp_all add: sortAndConcat_pair EMPTY_def)

definition hashPair :: "digest \<Rightarrow> buffer \<Rightarrow> buffer \<Rightarrow> buffer" where
  "hashPair sha a b = sha (sortAndConcat [a, b])"

lemma verifyLoop_eq:
  "verifyLoop sha leq pf c = Inr (foldl (hashPair sha) c pf)"
proof (induction pf arbitrary: c)
  case Nil
  show ?case by simp
next
  case (Cons p pf)
  have "combinedHash sha (Some p) (Some c) = Inr (hashPair sha c p)"
    using sortAndConcat_commute[of p c] by (simp add: combinedHash_def hashPair_def)
  moreover have "combinedHash sha (Some c) (Some p) = Inr (hashPair sha c p)"
    by (simp add: combinedHash_def hashPair_def)
  ultimately show ?case using Cons.IH by simp
qed

definition pairIdx :: "nat \<Rightarrow> nat" where
  "pairIdx idx = (if idx mod 2 = 0 then idx + 1 else idx - 1)"

lemma pairUp_nth:
  "even (length ys) \<Longrightarrow> i < length ys \<Longrightarrow>
   pairUp sha ys ! (i div 2) = hashPair sha (ys ! i) (ys ! pairIdx i)"
proof (induction sha ys arbitrary: i rule: pairUp.induct)
  case (1 sha)
  then show ?case by simp
next
  case (2 sha a)
  then show ?case by simp
next
  case (3 sha a b rest)
  consider "i = 0" | "i = 1" | j where "i = Suc (Suc j)"
    by (metis One_nat_def not0_implies_Suc)
  then show ?case
  proof cases
    case 1
    then show ?thesis by (simp add: hashPair_def pairIdx_def)
  next
    case 2
    then show ?thesis using sortAndConcat_commute[of a b] by (simp add: hashPair_def pairIdx_def)
  next
    case 3
    have ev: "even (length rest)" using "3.prems"(1) by simp
    have lt: "j < length rest" using "3.prems"(2) 3 by simp
    have p: "pairIdx i = Suc (Suc (pairIdx j))"
    proof (cases "even j")
      case True
      then show ?thesis using 3 by (simp add: pairIdx_def)
    next
      case False
      then have "0 < j" by (cases j) auto
      with False show ?thesis using 3 by (auto simp: pairIdx_def)
    qed
    from "3.IH"[OF ev lt] 3 p show ?thesis by simp
  qed
qed

definition sibling :: "nat \<Rightarrow> buffer list \<Rightarrow> buffer" where
  "sibling idx layer = (case getPairElement idx layer of Some p \<Rightarrow> p | None \<Rightarrow> [])"

lemma sibling_padEven:
  assumes "idx < length xs"
  shows "sibling idx xs = padEven xs ! pairIdx idx"
proof (cases "pairIdx idx < length xs")
  case True
  then have "sibling idx xs = xs ! pairIdx idx"
    by (simp add: sibling_def getPairElement_def pairIdx_def Let_def)
  moreover have "padEven xs ! pairIdx idx = xs ! pairIdx idx"
    using True by (simp add: padEven_def nth_append)
  ultimately show ?thesis by simp
next
  case False
  with assms have e: "idx mod 2 = 0" and l: "pairIdx idx = length xs"
    by (auto simp: pairIdx_def split: if_splits)
  from e l have "length xs = idx + 1" by (simp add: pairIdx_def)
  with e have odd: "length xs mod 2 = 1" by presburger
  have "sibling idx xs = []"
    using False by (simp add: sibling_def getPairElement_def pairIdx_def Let_def)
  moreover have "padEven xs ! pairIdx idx = []"
    using odd l by (simp add: padEven_def EMPTY_def)
  ultimately show ?thesis by simp
qed

lemma nth_padEven: "idx < length xs \<Longrightarrow> padEven xs ! idx = xs ! idx"
  by (simp add: padEven_def nth_append)

lemma even_length_padEven: "even (length (padEven xs))"
  by (simp add: padEven_def) presburger

subsection \<open>The loops in closed form\<close>

text \<open>
  \<open>layerStack\<close> is the layer stack that \<open>layersLoop\<close> builds above one layer, and
  \<open>proofPath\<close> the siblings that \<open>proofLoop\<close> collects; \<open>treeRoot\<close> is the first
  element of the top layer.
\<close>

lemma length_next_less: "1 < length xs \<Longrightarrow> length (pairUp sha (padEven xs)) < length xs"
  by (simp add: length_pairUp length_padEven)

function layerStack :: "digest \<Rightarrow> buffer list \<Rightarrow> buffer list list" where
  "layerStack sha xs =
     (if 1 < length xs then padEven xs # layerStack sha (pairUp sha (padEven xs)) else [xs])"
  by pat_completeness auto
termination
  by (relation "measure (\<lambda>(sha, xs). length xs)") (simp_all add: length_next_less)

declare layerStack.simps [simp del]

function proofPath :: "digest \<Rightarrow> nat \<Rightarrow> buffer list \<Rightarrow> buffer list" where
  "proofPath sha idx xs =
     (if 1 < length xs
      then sibling idx xs # proofPath sha (idx div 2) (pairUp sha (padEven xs))
      else [])"
  by pat_completeness auto
termination
  by (relation "measure (\<lambda>(sha, idx, xs). length xs)") (simp_all add: length_next_less)

declare proofPath.simps [simp del]

lemma layerStack_nonempty: "layerStack sha xs \<noteq> []"
  by (subst layerStack.simps) simp

lemma layersLoop_eq: "layersLoop sha (pre @ [xs]) = Inr (pre @ layerStack sha xs)"
proof (induction sha xs arbitrary: pre rule: layerStack.induct)
  case (1 sha xs)
  show ?case
  proof (cases "1 < length xs")
    case True
    have c: "(case pre @ [xs] of [] \<Rightarrow> 0 | _ # _ \<Rightarrow> length (last (pre @ [xs]))) = length xs"
      by (cases pre) simp_all
    have "layersLoop sha (pre @ [xs]) =
        layersLoop sha ((pre @ [padEven xs]) @ [pairUp sha (padEven xs)])"
      using True by (subst layersLoop.simps) (simp add: c getNextLayer_eq)
    also have "\<dots> = Inr ((pre @ [padEven xs]) @ layerStack sha (pairUp sha (padEven xs)))"
      using "1.IH"[OF True] by blast
    also have "\<dots> = Inr (pre @ layerStack sha xs)"
      using True by (subst (2) layerStack.simps) simp
    finally show ?thesis .
  next
    case False
    have c: "(case pre @ [xs] of [] \<Rightarrow> 0 | _ # _ \<Rightarrow> length (last (pre @ [xs]))) = length xs"
      by (cases pre) simp_all
    show ?thesis using False
      by (subst layersLoop.simps, subst layerStack.simps) (simp add: c)
  qed
qed

lemma proofLoop_eq:
  "proofLoop sha idx xs res =
     Inr (res @ proofPath sha idx xs, if 1 < length xs then padEven xs else xs)"
proof (induction sha idx xs arbitrary: res rule: proofPath.induct)
  case (1 sha idx xs)
  show ?case
  proof (cases "1 < length xs")
    case True
    show ?thesis
      using True "1.IH"[OF True, of "res @ [sibling idx xs]"]
      by (subst proofLoop.simps, subst proofPath.simps)
         (simp add: getNextLayer_eq Let_def sibling_def)
  next
    case False
    then show ?thesis
      by (subst proofLoop.simps, subst proofPath.simps) simp
  qed
qed

definition treeRoot :: "digest \<Rightarrow> buffer list \<Rightarrow> buffer" where
  "treeRoot sha xs = hd (last (layerStack sha xs))"

lemma treeRoot_step:
  "1 < length xs \<Longrightarrow> treeRoot sha xs = treeRoot sha (pairUp sha (padEven xs))"
  unfolding treeRoot_def
  by (subst layerStack.simps) (simp add: layerStack_nonempty)

lemma treeRoot_base: "\<not> 1 < length xs \<Longrightarrow> treeRoot sha xs = hd xs"
  unfolding treeRoot_def by (subst layerStack.simps) simp

lemma proofPath_folds_to_root:
  "idx < length xs \<Longrightarrow>
   foldl (hashPair sha) (xs ! idx) (proofPath sha idx xs) = treeRoot sha xs"
proof (induction sha idx xs rule: proofPath.induct)
  case (1 sha idx xs)
  show ?case
  proof (cases "1 < length xs")
    case True
    let ?ys = "padEven xs"
    have lt: "idx < length ?ys" using "1.prems" by (simp add: length_padEven)
    have ev: "even (length ?ys)" by (rule even_length_padEven)
    have node: "hashPair sha (xs ! idx) (sibling idx xs) = pairUp sha ?ys ! (idx div 2)"
      using pairUp_nth[OF ev lt, of sha] sibling_padEven[OF "1.prems"] nth_padEven[OF "1.prems"]
      by simp
    have up: "idx div 2 < length (pairUp sha ?ys)"
      using lt ev by (auto simp: length_pairUp elim!: evenE)
    have "foldl (hashPair sha) (xs ! idx) (proofPath sha idx xs) =
        foldl (hashPair sha) (pairUp sha ?ys ! (idx div 2))
          (proofPath sha (idx div 2) (pairUp sha ?ys))"
      using True node by (subst proofPath.simps) simp
    also have "\<dots> = treeRoot sha (pairUp sha ?ys)"
      using "1.IH"[OF True up] .
    also have "\<dots> = treeRoot sha xs"
      using treeRoot_step[OF True] by simp
    finally show ?thesis .
  next
    case False
    with "1.prems" have "idx = 0" "xs \<noteq> []" by auto
    then show ?thesis using False
      by (subst proofPath.simps) (simp add: treeRoot_base hd_conv_nth)
  qed
qed

subsection \<open>The hex encoding is injective and lowercase\<close>

definition hexChars :: string where
  "hexChars = ''0123456789abcdef''"

lemma hexDigit_inj: "i < 16 \<Longrightarrow> j < 16 \<Longrightarrow> hexDigit i = hexDigit j \<Longrightarrow> i = j"
proof -
  assume a: "i < 16" "j < 16" "hexDigit i = hexDigit j"
  have d: "distinct ''0123456789abcdef''" by simp
  have l: "length ''0123456789abcdef'' = 16" by simp
  show ?thesis using a nth_eq_iff_index_eq[OF d, of i j] l by (simp add: hexDigit_def)
qed

lemma hexDigit_mem: "i < 16 \<Longrightarrow> hexDigit i \<in> set hexChars"
proof -
  assume "i < 16"
  then have "i < length ''0123456789abcdef''" by simp
  then show ?thesis unfolding hexDigit_def hexChars_def by (rule nth_mem)
qed

lemma byte_nibbles: "unat (b :: byte) div 16 < 16" "unat b mod 16 < 16"
proof -
  have "unat b < 2 ^ LENGTH(8)" by (rule unsigned_less)
  then have "unat b < 256" by simp
  then show "unat b div 16 < 16" by simp
  show "unat b mod 16 < 16" by simp
qed

lemma byte_eq_nibbles:
  assumes "hexDigit (unat (a :: byte) div 16) = hexDigit (unat (b :: byte) div 16)"
      and "hexDigit (unat a mod 16) = hexDigit (unat b mod 16)"
  shows "a = b"
proof -
  have "unat a div 16 = unat b div 16"
    using assms(1) hexDigit_inj byte_nibbles(1) by blast
  moreover have "unat a mod 16 = unat b mod 16"
    using assms(2) hexDigit_inj byte_nibbles(2) by blast
  ultimately have "unat a = unat b"
    by (metis div_mult_mod_eq)
  then show ?thesis by (simp add: word_unat_eq_iff)
qed

lemma toHex_inj: "toHex a = toHex b \<Longrightarrow> a = b"
proof (induction a arbitrary: b)
  case Nil
  then show ?case by (cases b) simp_all
next
  case (Cons x xs)
  then show ?case by (cases b) (auto dest: byte_eq_nibbles)
qed

lemma toHex_chars: "set (toHex b) \<subseteq> set hexChars"
  by (induction b) (simp_all add: hexDigit_mem byte_nibbles)

subsection \<open>The position index: the last position of a key wins\<close>

lemma positionIndex_absent:
  "key \<notin> toHex ` set xs \<Longrightarrow> positionIndex memo k xs key = memo key"
  by (induction xs arbitrary: memo k) auto

lemma positionIndex_present:
  "key \<in> toHex ` set xs \<Longrightarrow>
   \<exists>i<length xs. positionIndex memo k xs key = Some (k + i) \<and> toHex (xs ! i) = key \<and>
     (\<forall>j<length xs. toHex (xs ! j) = key \<longrightarrow> j \<le> i)"
proof (induction xs arbitrary: memo k)
  case Nil
  then show ?case by simp
next
  case (Cons el rest)
  show ?case
  proof (cases "key \<in> toHex ` set rest")
    case True
    from Cons.IH[OF True, of "memo(toHex el \<mapsto> k)" "Suc k"]
    obtain i where i: "i < length rest"
      "positionIndex (memo(toHex el \<mapsto> k)) (Suc k) rest key = Some (Suc k + i)"
      "toHex (rest ! i) = key" "\<forall>j<length rest. toHex (rest ! j) = key \<longrightarrow> j \<le> i"
      by blast
    have "\<forall>j<length (el # rest). toHex ((el # rest) ! j) = key \<longrightarrow> j \<le> Suc i"
    proof (intro allI impI)
      fix j assume "j < length (el # rest)" "toHex ((el # rest) ! j) = key"
      then show "j \<le> Suc i" using i(4) by (cases j) auto
    qed
    with i(1,2,3) show ?thesis by (intro exI[of _ "Suc i"]) simp
  next
    case False
    with Cons.prems have k: "toHex el = key" by auto
    have "\<forall>j<length (el # rest). toHex ((el # rest) ! j) = key \<longrightarrow> j \<le> 0"
    proof (intro allI impI)
      fix j assume "j < length (el # rest)" "toHex ((el # rest) ! j) = key"
      then show "j \<le> 0" using False by (cases j) auto
    qed
    with k False show ?thesis
      by (intro exI[of _ 0]) (simp add: positionIndex_absent)
  qed
qed

subsection \<open>The constructed tree\<close>

lemma layerStack_top: "xs \<noteq> [] \<Longrightarrow> length (last (layerStack sha xs)) = 1"
proof (induction sha xs rule: layerStack.induct)
  case (1 sha xs)
  show ?case
  proof (cases "1 < length xs")
    case True
    then have "pairUp sha (padEven xs) \<noteq> []"
      using length_pairUp[of sha "padEven xs"] length_padEven[of xs] by auto
    with "1.IH"[OF True] True show ?thesis
      by (subst layerStack.simps) (simp add: layerStack_nonempty)
  next
    case False
    with "1.prems" have "length xs = 1" by (cases xs) auto
    with False show ?thesis by (subst layerStack.simps) simp
  qed
qed

lemma padEven_idem: "padEven (padEven xs) = padEven xs"
  using even_length_padEven[of xs] by (subst padEven_def) presburger

lemma padEven_empty: "padEven xs = [] \<longleftrightarrow> xs = []"
  by (cases xs) (simp_all add: padEven_def)

lemma layerStack_hd: "xs \<noteq> [] \<Longrightarrow> hd (layerStack sha (padEven xs)) = padEven xs"
  by (subst layerStack.simps) (simp add: padEven_idem)

lemma MerkleTree_eq:
  "MerkleTree sha elems =
     (if elems = [] then Inl EmptyTree
      else Inr \<lparr> elements = padEven elems,
                bufferElementPositionIndex = positionIndex Map.empty 0 (padEven elems),
                layers = layerStack sha (padEven elems) \<rparr>)"
proof (cases "elems = []")
  case True
  then show ?thesis by (simp add: MerkleTree_def getLayers_def)
next
  case False
  have p: "(if length elems mod 2 = 1 then elems @ [EMPTY] else elems) = padEven elems"
    by (simp add: padEven_def)
  have g: "getLayers sha (padEven elems) = Inr (layerStack sha (padEven elems))"
    using False layersLoop_eq[of sha "[]" "padEven elems"]
    by (simp add: getLayers_def padEven_empty)
  have h: "(case layerStack sha (padEven elems) of [] \<Rightarrow> padEven elems | l0 # _ \<Rightarrow> l0)
      = padEven elems"
    using layerStack_hd[OF False, of sha] layerStack_nonempty[of sha "padEven elems"]
    by (cases "layerStack sha (padEven elems)") simp_all
  show ?thesis using False unfolding MerkleTree_def p Let_def g by (simp add: h)
qed

lemma getRoot_constructed:
  assumes "MerkleTree sha elems = Inr t"
  shows "getRoot t = Inr (treeRoot sha (padEven elems))"
proof -
  from assms have ne: "elems \<noteq> []"
    and l: "layers t = layerStack sha (padEven elems)"
    by (auto simp: MerkleTree_eq split: if_splits)
  have "length (last (layerStack sha (padEven elems))) = 1"
    using ne by (simp add: layerStack_top padEven_empty)
  then obtain r where r: "last (layerStack sha (padEven elems)) = [r]"
    by (cases "last (layerStack sha (padEven elems))") auto
  show ?thesis using r l layerStack_nonempty[of sha "padEven elems"]
    by (cases "layerStack sha (padEven elems)") (auto simp: getRoot_def treeRoot_def)
qed

text \<open>
  The tree that \<open>new MerkleTree(leaves)\<close> returns (the constructor throws on no
  leaves; the value given for that case is never used below).
\<close>

definition builtTree :: "digest \<Rightarrow> buffer list \<Rightarrow> tree" where
  "builtTree sha leaves =
     (case MerkleTree sha leaves of
        Inr t \<Rightarrow> t
      | Inl e \<Rightarrow> \<lparr> elements = [], bufferElementPositionIndex = Map.empty, layers = [] \<rparr>)"

lemma MerkleTree_builtTree: "leaves \<noteq> [] \<Longrightarrow> MerkleTree sha leaves = Inr (builtTree sha leaves)"
  by (simp add: builtTree_def MerkleTree_eq)

lemma constructed_fields:
  assumes "MerkleTree sha leaves = Inr t"
  shows "leaves \<noteq> []" "elements t = padEven leaves"
    "bufferElementPositionIndex t = positionIndex Map.empty 0 (padEven leaves)"
    "layers t = layerStack sha (padEven leaves)"
  using assms by (auto simp: MerkleTree_eq split: if_splits)

lemma padEven_long: "xs \<noteq> [] \<Longrightarrow> 1 < length (padEven xs)"
proof -
  assume "xs \<noteq> []"
  then have "0 < length xs" by simp
  then show ?thesis unfolding length_padEven by presburger
qed

lemma layerStack_padded:
  "xs \<noteq> [] \<Longrightarrow>
   layerStack sha (padEven xs) = padEven xs # layerStack sha (pairUp sha (padEven xs))"
  using padEven_long[of xs] by (subst layerStack.simps) (simp add: padEven_idem)

lemma getProof_constructed:
  assumes "MerkleTree sha leaves = Inr t"
      and "bufferElementPositionIndex t (toHex e) = Some i"
  shows "getProof sha t e = Inr (proofPath sha i (elements t), t)"
proof -
  note f = constructed_fields[OF assms(1)]
  have long: "1 < length (elements t)" using padEven_long[OF f(1)] f(2) by simp
  have pad: "padEven (elements t) = elements t" using f(2) by (simp add: padEven_idem)
  have loop: "proofLoop sha i (elements t) [] = Inr (proofPath sha i (elements t), elements t)"
    using long pad by (simp add: proofLoop_eq)
  have ls: "layers t = elements t # layerStack sha (pairUp sha (elements t))"
    using f(1,2,4) layerStack_padded[of leaves sha] by simp
  have same: "t\<lparr> elements := elements t, layers := layers t \<rparr> = t" by simp
  have "(case layers t of [] \<Rightarrow> [] | _ # upper \<Rightarrow> elements t # upper) = layers t"
    by (subst (1 2) ls) simp
  with same loop assms(2) show ?thesis by (simp add: getProof_def)
qed

lemma index_lookup:
  assumes "MerkleTree sha leaves = Inr t"
  shows "e \<in> set (elements t) \<Longrightarrow>
           \<exists>i<length (elements t). bufferElementPositionIndex t (toHex e) = Some i \<and>
             elements t ! i = e \<and> (\<forall>j<length (elements t). elements t ! j = e \<longrightarrow> j \<le> i)"
    and "e \<notin> set (elements t) \<Longrightarrow> bufferElementPositionIndex t (toHex e) = None"
proof -
  note f = constructed_fields[OF assms]
  {
    assume "e \<in> set (elements t)"
    then have "toHex e \<in> toHex ` set (elements t)" by simp
    from positionIndex_present[OF this, of Map.empty 0]
    obtain i where i: "i < length (elements t)"
      "positionIndex Map.empty 0 (elements t) (toHex e) = Some i"
      "toHex (elements t ! i) = toHex e"
      "\<forall>j<length (elements t). toHex (elements t ! j) = toHex e \<longrightarrow> j \<le> i"
      by auto
    from i(3) have "elements t ! i = e" by (rule toHex_inj)
    moreover have "\<forall>j<length (elements t). elements t ! j = e \<longrightarrow> j \<le> i"
      using i(4) by auto
    ultimately show "\<exists>i<length (elements t). bufferElementPositionIndex t (toHex e) = Some i \<and>
             elements t ! i = e \<and> (\<forall>j<length (elements t). elements t ! j = e \<longrightarrow> j \<le> i)"
      using i(1,2) f(2,3) by auto
  }
  {
    assume "e \<notin> set (elements t)"
    then have "toHex e \<notin> toHex ` set (elements t)" using toHex_inj by auto
    then show "bufferElementPositionIndex t (toHex e) = None"
      using f(2,3) by (simp add: positionIndex_absent)
  }
qed

lemma layerStack_single: "layerStack sha [x, EMPTY] = [[x, EMPTY], [sha x]]"
proof -
  have p: "padEven [x, EMPTY] = [x, EMPTY]" by (simp add: padEven_def)
  have "layerStack sha [x, EMPTY] = [x, EMPTY] # layerStack sha [sha x]"
    by (subst layerStack.simps) (simp add: p sortAndConcat_EMPTY)
  also have "layerStack sha [sha x] = [[sha x]]"
    by (subst layerStack.simps) simp
  finally show ?thesis .
qed

lemma constructionDigests_single: "constructionDigests sha [x] = 1"
proof -
  have p: "padEven [x, EMPTY] = [x, EMPTY]" by (simp add: padEven_def)
  have "layersLoopDigests sha [[x, EMPTY]] = 1 + layersLoopDigests sha [[x, EMPTY], [sha x]]"
    by (subst layersLoopDigests.simps) (simp add: getNextLayer_eq p sortAndConcat_EMPTY)
  also have "layersLoopDigests sha [[x, EMPTY], [sha x]] = 0"
    by (subst layersLoopDigests.simps) simp
  finally show ?thesis by (simp add: constructionDigests_def)
qed

subsection \<open>Lengths in the layer stack\<close>

lemma layerStack_even:
  "Suc i < length (layerStack sha xs) \<Longrightarrow> even (length (layerStack sha xs ! i))"
proof (induction sha xs arbitrary: i rule: layerStack.induct)
  case (1 sha xs)
  show ?case
  proof (cases "1 < length xs")
    case True
    have s: "layerStack sha xs = padEven xs # layerStack sha (pairUp sha (padEven xs))"
      using True by (subst layerStack.simps) simp
    show ?thesis
    proof (cases i)
      case 0
      then show ?thesis by (simp add: s even_length_padEven)
    next
      case (Suc j)
      with "1.prems" s have "Suc j < length (layerStack sha (pairUp sha (padEven xs)))" by simp
      from "1.IH"[OF True this] Suc s show ?thesis by simp
    qed
  next
    case False
    then have "layerStack sha xs = [xs]" by (subst layerStack.simps) simp
    with "1.prems" show ?thesis by simp
  qed
qed

lemma layerStack_hd_length:
  "length (hd (layerStack sha xs)) =
     (if 1 < length xs \<and> odd (length xs) then length xs + 1 else length xs)"
proof (cases "1 < length xs")
  case True
  have "layerStack sha xs = padEven xs # layerStack sha (pairUp sha (padEven xs))"
    using True by (subst layerStack.simps) simp
  then have "length (hd (layerStack sha xs)) = length xs + length xs mod 2"
    by (simp add: length_padEven)
  then show ?thesis using True by (simp add: odd_iff_mod_2_eq_one)
next
  case False
  then have "layerStack sha xs = [xs]" by (subst layerStack.simps) simp
  with False show ?thesis by simp
qed

lemma layerStack_next_length:
  "Suc i < length (layerStack sha xs) \<Longrightarrow>
   length (layerStack sha xs ! Suc i) =
     (let h = length (layerStack sha xs ! i) div 2
      in if 1 < h \<and> odd h then h + 1 else h)"
proof (induction sha xs arbitrary: i rule: layerStack.induct)
  case (1 sha xs)
  show ?case
  proof (cases "1 < length xs")
    case True
    let ?next = "pairUp sha (padEven xs)"
    have s: "layerStack sha xs = padEven xs # layerStack sha ?next"
      using True by (subst layerStack.simps) simp
    show ?thesis
    proof (cases i)
      case 0
      have n: "length ?next = length (padEven xs) div 2"
        using even_length_padEven[of xs] by (auto simp: length_pairUp elim!: evenE)
      have "layerStack sha xs ! Suc 0 = hd (layerStack sha ?next)"
        using s layerStack_nonempty[of sha ?next] by (simp add: hd_conv_nth)
      then show ?thesis using 0 s n layerStack_hd_length[of sha ?next]
        by (simp add: Let_def)
    next
      case (Suc j)
      with "1.prems" s have "Suc j < length (layerStack sha ?next)" by simp
      from "1.IH"[OF True this] Suc s show ?thesis by simp
    qed
  next
    case False
    then have "layerStack sha xs = [xs]" by (subst layerStack.simps) simp
    with "1.prems" show ?thesis by simp
  qed
qed

subsection \<open>The \<open>0x\<close> prefix\<close>

lemma toHex_no_0x: "take 2 (toHex b) \<noteq> ''0x''"
proof (cases b)
  case Nil
  then show ?thesis by simp
next
  case (Cons w ws)
  have "hexDigit (unat w mod 16) \<in> set hexChars" by (simp add: hexDigit_mem byte_nibbles)
  moreover have "CHR ''x'' \<notin> set hexChars" by (simp add: hexChars_def)
  ultimately have "hexDigit (unat w mod 16) \<noteq> CHR ''x''" by metis
  then show ?thesis using Cons by simp
qed

lemma bufArrToHexArr_prefixed:
  "bufArrToHexArr arr = Inr hs \<Longrightarrow> h \<in> set hs \<Longrightarrow>
   take 2 h = ''0x'' \<and> set (drop 2 h) \<subseteq> set hexChars"
proof -
  assume a: "bufArrToHexArr arr = Inr hs" "h \<in> set hs"
  then have "hs = map (\<lambda>el. ''0x'' @ toHex el) arr"
    by (simp add: bufArrToHexArr_def list_ex_iff)
  with a(2) obtain el where "h = ''0x'' @ toHex el" by auto
  then show ?thesis using toHex_chars[of el] by simp
qed

lemma getHexProof_prefixed:
  assumes "getHexProof sha t e = Inr (hs, t')" and "h \<in> set hs"
  shows "take 2 h = ''0x'' \<and> set (drop 2 h) \<subseteq> set hexChars"
proof -
  from assms(1) obtain pf where "bufArrToHexArr pf = Inr hs"
    by (auto simp: getHexProof_def split: sum.splits prod.splits)
  from bufArrToHexArr_prefixed[OF this assms(2)] show ?thesis .
qed

section \<open>Properties\<close>

text \<open>
  C1 (inclusion). For a tree constructed from a non-empty leaf sequence and every
  buffer \<open>e\<close> of its padded leaf layer, \<open>getProof(e)\<close> returns a proof (and leaves
  the tree as it was), and \<open>verify\<close> of that proof and \<open>e\<close> on the tree, that is
  against the tree's root, returns true. This holds for every digest and whatever the
  runtime's \<open><=\<close> on buffers answers.
\<close>

theorem inclusion_proof_verifies:
  assumes "MerkleTree sha leaves = Inr t" and "e \<in> set (elements t)"
  shows "\<exists>pf. getProof sha t e = Inr (pf, t) \<and> verify sha leq t pf e = Inr True"
proof -
  from index_lookup(1)[OF assms] obtain i where i: "i < length (elements t)"
    "bufferElementPositionIndex t (toHex e) = Some i" "elements t ! i = e"
    by blast
  have g: "getProof sha t e = Inr (proofPath sha i (elements t), t)"
    using getProof_constructed[OF assms(1) i(2)] .
  have "foldl (hashPair sha) e (proofPath sha i (elements t)) = treeRoot sha (elements t)"
    using proofPath_folds_to_root[OF i(1), of sha] i(3) by simp
  moreover have "getRoot t = Inr (treeRoot sha (elements t))"
    using getRoot_constructed[OF assms(1)] constructed_fields(2)[OF assms(1)] by simp
  ultimately have "verify sha leq t (proofPath sha i (elements t)) e = Inr True"
    by (simp add: verify_def verifyLoop_eq)
  with g show ?thesis by blast
qed

theorem inclusion_proof_verifies_witness:
  "MerkleTree sampleDigest [[1], [2], [3]] = Inr (builtTree sampleDigest [[1], [2], [3]])
   \<and> [2] \<in> set (elements (builtTree sampleDigest [[1], [2], [3]]))
   \<and> getProof sampleDigest (builtTree sampleDigest [[1], [2], [3]]) [2]
       = Inr ([[1], sampleDigest [3]], builtTree sampleDigest [[1], [2], [3]])
   \<and> verify sampleDigest sampleLeq (builtTree sampleDigest [[1], [2], [3]])
       [[1], sampleDigest [3]] [2] = Inr True"
proof -
  let ?t = "builtTree sampleDigest [[1], [2], [3]]"
  have h1: "MerkleTree sampleDigest [[1], [2], [3]] = Inr ?t"
    by (simp add: MerkleTree_builtTree)
  have h2: "[2] \<in> set (elements ?t)" by code_simp
  from inclusion_proof_verifies[OF h1 h2, of sampleLeq]
  obtain pf where pf: "getProof sampleDigest ?t [2] = Inr (pf, ?t)"
    "verify sampleDigest sampleLeq ?t pf [2] = Inr True"
    by blast
  have "map_sum id fst (getProof sampleDigest ?t [2]) = Inr [[1], sampleDigest [3]]"
    by code_simp
  with pf(1) have "pf = [[1], sampleDigest [3]]" by simp
  with h1 h2 pf show ?thesis by simp
qed

text \<open>
  C2, as the code has it. A tree constructed from exactly one leaf \<open>x\<close> has the leaf
  layer \<open>[x, EMPTY]\<close> (the constructor pads the odd length 1), one layer above it, and
  its root is the digest of \<open>x\<close>: \<open>combinedHash(x, EMPTY)\<close> digests the sorted
  concatenation of \<open>x\<close> and the zero-length buffer, which is \<open>x\<close>. The construction
  computes exactly one digest.
\<close>

theorem single_leaf_root_is_digest:
  assumes "MerkleTree sha [x] = Inr t"
  shows "elements t = [x, EMPTY]
       \<and> layers t = [[x, EMPTY], [sha x]]
       \<and> getRoot t = Inr (sha x)
       \<and> constructionDigests sha [x] = 1"
proof -
  note f = constructed_fields[OF assms]
  have p: "padEven [x] = [x, EMPTY]" by (simp add: padEven_def)
  have "layers t = [[x, EMPTY], [sha x]]" using f(4) by (simp add: p layerStack_single)
  then show ?thesis using f(2) by (simp add: p getRoot_def constructionDigests_single)
qed

theorem single_leaf_root_is_digest_witness:
  "MerkleTree sampleDigest [[7]] = Inr (builtTree sampleDigest [[7]])
   \<and> elements (builtTree sampleDigest [[7]]) = [[7], []]
   \<and> layers (builtTree sampleDigest [[7]]) = [[[7], []], [sampleDigest [7]]]
   \<and> getRoot (builtTree sampleDigest [[7]]) = Inr (sampleDigest [7])
   \<and> constructionDigests sampleDigest [[7]] = 1"
proof -
  have h: "MerkleTree sampleDigest [[7]] = Inr (builtTree sampleDigest [[7]])"
    by (simp add: MerkleTree_builtTree)
  from single_leaf_root_is_digest[OF h] h show ?thesis by (simp add: EMPTY_def)
qed

text \<open>The claim as stated (root equal to the single leaf) fails for the leaf \<open>0x01\<close>.\<close>

theorem single_leaf_root_counterexample:
  "MerkleTree sampleDigest [[1]] = Inr (builtTree sampleDigest [[1]])
   \<and> layers (builtTree sampleDigest [[1]]) = [[[1], []], [sampleDigest [1]]]
   \<and> getRoot (builtTree sampleDigest [[1]]) = Inr (sampleDigest [1])
   \<and> getRoot (builtTree sampleDigest [[1]]) \<noteq> Inr [1]
   \<and> constructionDigests sampleDigest [[1]] \<noteq> 0"
proof -
  have h: "MerkleTree sampleDigest [[1]] = Inr (builtTree sampleDigest [[1]])"
    by (simp add: MerkleTree_builtTree)
  have l: "layers (builtTree sampleDigest [[1]]) = [[[1], []], [sampleDigest [1]]]"
    by code_simp
  have r: "getRoot (builtTree sampleDigest [[1]]) = Inr (sampleDigest [1])"
    by code_simp
  have d: "constructionDigests sampleDigest [[1]] \<noteq> 0" by code_simp
  have "sampleDigest [1] \<noteq> [1]" by (simp add: sampleDigest_def)
  with h l r d show ?thesis by simp
qed

text \<open>
  C3, as the code has it. \<open>verify(proof, leaf)\<close> is a method with two explicit inputs;
  the root it compares with is \<open>this.getRoot()\<close> of the tree it is called on. Its result
  is determined by the proof, the leaf and that root: it is true exactly when folding the
  proof into the leaf with the sorted pair hash gives the tree's root (and it fails when
  the tree has no root).
\<close>

theorem verify_reads_root_of_tree:
  "verify sha leq t pf leaf =
     (case getRoot t of
        Inl e \<Rightarrow> Inl e
      | Inr root \<Rightarrow>
          Inr (foldl (\<lambda>computedHash element. sha (sortAndConcat [computedHash, element]))
                 leaf pf = root))"
proof -
  have "hashPair sha = (\<lambda>computedHash element. sha (sortAndConcat [computedHash, element]))"
    by (intro ext) (simp add: hashPair_def)
  then show ?thesis by (simp add: verify_def verifyLoop_eq)
qed

text \<open>
  The same proof and leaf verify on the tree built from \<open>[0x01]\<close> and not on the tree
  built from \<open>[0x02]\<close>: the result depends on the tree.
\<close>

theorem verify_depends_on_tree_counterexample:
  "MerkleTree sampleDigest [[1]] = Inr (builtTree sampleDigest [[1]])
   \<and> MerkleTree sampleDigest [[2]] = Inr (builtTree sampleDigest [[2]])
   \<and> verify sampleDigest sampleLeq (builtTree sampleDigest [[1]]) [[]] [1] = Inr True
   \<and> verify sampleDigest sampleLeq (builtTree sampleDigest [[2]]) [[]] [1] = Inr False"
proof -
  have a: "MerkleTree sampleDigest [[1]] = Inr (builtTree sampleDigest [[1]])"
    by (simp add: MerkleTree_builtTree)
  have b: "MerkleTree sampleDigest [[2]] = Inr (builtTree sampleDigest [[2]])"
    by (simp add: MerkleTree_builtTree)
  have c: "verify sampleDigest sampleLeq (builtTree sampleDigest [[1]]) [[]] [1] = Inr True"
    by code_simp
  have d: "verify sampleDigest sampleLeq (builtTree sampleDigest [[2]]) [[]] [1] = Inr False"
    by code_simp
  from a b c d show ?thesis by simp
qed

text \<open>
  C4, as the code has it. For every buffer \<open>c\<close>, the pair hash of \<open>c\<close> with the
  zero-length sentinel, in either argument order and also as \<open>verify\<close> computes it for
  the proof entry \<open>EMPTY\<close>, is the digest of \<open>c\<close> alone: the same digest as the
  single-sided hash, since the sorted concatenation of \<open>c\<close> and no bytes is \<open>c\<close>.
\<close>

theorem sentinel_pair_hash_is_single_hash:
  "combinedHash sha (Some c) (Some EMPTY) = Inr (sha c)
   \<and> combinedHash sha (Some EMPTY) (Some c) = Inr (sha c)
   \<and> combinedHash sha (Some c) None = Inr (sha c)
   \<and> verifyLoop sha leq [EMPTY] c = Inr (sha c)"
proof -
  have a: "sortAndConcat [c, EMPTY] = c" by (rule sortAndConcat_EMPTY)
  have b: "sortAndConcat [EMPTY, c] = c"
    using sortAndConcat_commute[of EMPTY c] a by simp
  show ?thesis by (simp add: combinedHash_def a b)
qed

text \<open>For the non-empty buffer \<open>0x01\<close> the two digests are equal, not different.\<close>

theorem sentinel_pair_hash_counterexample:
  "[1 :: byte] \<noteq> []
   \<and> combinedHash sampleDigest (Some [1]) (Some EMPTY) = combinedHash sampleDigest (Some [1]) None
   \<and> verifyLoop sampleDigest sampleLeq [EMPTY] [1] = combinedHash sampleDigest (Some [1]) None"
  by code_simp

text \<open>
  C5. Construction throws the error \<open>empty tree\<close> exactly for the empty leaf sequence,
  and returns a tree exactly for a non-empty one.
\<close>

theorem empty_tree_error:
  "(MerkleTree sha leaves = Inl EmptyTree) = (leaves = [])
   \<and> (\<exists>t. MerkleTree sha leaves = Inr t) = (leaves \<noteq> [])"
  by (simp add: MerkleTree_eq)

text \<open>
  C6. On a constructed tree, \<open>getProof(e)\<close> throws the not-found error exactly when the
  hex encoding of \<open>e\<close> is no key of the position index, and returns a proof exactly
  when it is one; the keys of the index are the encodings of the buffers of the padded
  leaf layer.
\<close>

theorem getProof_not_found_iff:
  assumes "MerkleTree sha leaves = Inr t"
  shows "(getProof sha t e = Inl ElementNotFound)
           = (toHex e \<notin> dom (bufferElementPositionIndex t))
       \<and> (\<exists>r. getProof sha t e = Inr r) = (toHex e \<in> dom (bufferElementPositionIndex t))
       \<and> (toHex e \<in> dom (bufferElementPositionIndex t)) = (e \<in> set (elements t))"
proof (cases "bufferElementPositionIndex t (toHex e)")
  case None
  then have "getProof sha t e = Inl ElementNotFound" by (simp add: getProof_def)
  moreover have "e \<notin> set (elements t)"
    using index_lookup(1)[OF assms, of e] None by auto
  ultimately show ?thesis using None by (simp add: domIff)
next
  case (Some i)
  then have "getProof sha t e = Inr (proofPath sha i (elements t), t)"
    using getProof_constructed[OF assms] by simp
  moreover have "e \<in> set (elements t)"
    using index_lookup(2)[OF assms, of e] Some by auto
  ultimately show ?thesis using Some by (simp add: domIff)
qed

theorem getProof_not_found_iff_witness:
  "MerkleTree sampleDigest [[1], [2], [3]] = Inr (builtTree sampleDigest [[1], [2], [3]])
   \<and> [4] \<notin> set (elements (builtTree sampleDigest [[1], [2], [3]]))
   \<and> toHex [4] \<notin> dom (bufferElementPositionIndex (builtTree sampleDigest [[1], [2], [3]]))
   \<and> getProof sampleDigest (builtTree sampleDigest [[1], [2], [3]]) [4] = Inl ElementNotFound"
proof -
  let ?t = "builtTree sampleDigest [[1], [2], [3]]"
  have h1: "MerkleTree sampleDigest [[1], [2], [3]] = Inr ?t"
    by (simp add: MerkleTree_builtTree)
  have h2: "[4] \<notin> set (elements ?t)" by code_simp
  from getProof_not_found_iff[OF h1, of "[4]"] h1 h2 show ?thesis by simp
qed

text \<open>
  C7 (last wins). In a constructed tree, let \<open>i\<close> be the last position of the padded
  leaf layer that holds a given buffer. The position index maps the buffer's hex
  encoding to \<open>i\<close>, and \<open>getProof\<close> of the buffer returns the proof that the loop
  collects from position \<open>i\<close>. For the leaves \<open>[0x01, 0x01]\<close> this is position 1.
\<close>

theorem duplicate_last_wins:
  assumes "MerkleTree sha leaves = Inr t"
      and "i < length (elements t)"
      and "\<forall>j<length (elements t). elements t ! j = elements t ! i \<longrightarrow> j \<le> i"
  shows "bufferElementPositionIndex t (toHex (elements t ! i)) = Some i
       \<and> (\<exists>pf. proofLoop sha i (elements t) [] = Inr (pf, elements t)
               \<and> getProof sha t (elements t ! i) = Inr (pf, t))"
proof -
  have mem: "elements t ! i \<in> set (elements t)" using assms(2) by simp
  from index_lookup(1)[OF assms(1) mem] obtain k where k: "k < length (elements t)"
    "bufferElementPositionIndex t (toHex (elements t ! i)) = Some k"
    "elements t ! k = elements t ! i"
    "\<forall>j<length (elements t). elements t ! j = elements t ! i \<longrightarrow> j \<le> k"
    by blast
  have "k \<le> i" using assms(3) k(1,3) by blast
  moreover have "i \<le> k" using k(4) assms(2) by blast
  ultimately have ki: "k = i" by simp
  note f = constructed_fields[OF assms(1)]
  have long: "1 < length (elements t)" using padEven_long[OF f(1)] f(2) by simp
  have pad: "padEven (elements t) = elements t" using f(2) by (simp add: padEven_idem)
  have loop: "proofLoop sha i (elements t) [] = Inr (proofPath sha i (elements t), elements t)"
    using long pad by (simp add: proofLoop_eq)
  from getProof_constructed[OF assms(1) k(2)] ki loop k(2) show ?thesis by simp
qed

theorem duplicate_last_wins_witness:
  "MerkleTree sampleDigest [[1], [1]] = Inr (builtTree sampleDigest [[1], [1]])
   \<and> elements (builtTree sampleDigest [[1], [1]]) = [[1], [1]]
   \<and> toHex [1] = ''01''
   \<and> bufferElementPositionIndex (builtTree sampleDigest [[1], [1]]) ''01'' = Some 1
   \<and> proofLoop sampleDigest 1 [[1], [1]] [] = Inr ([[1]], [[1], [1]])
   \<and> getProof sampleDigest (builtTree sampleDigest [[1], [1]]) [1]
       = Inr ([[1]], builtTree sampleDigest [[1], [1]])"
proof -
  let ?t = "builtTree sampleDigest [[1], [1]]"
  have h1: "MerkleTree sampleDigest [[1], [1]] = Inr ?t"
    by (simp add: MerkleTree_builtTree)
  have els: "elements ?t = [[1], [1]]" by code_simp
  have h2: "1 < length (elements ?t)" by (simp add: els)
  have h3: "\<forall>j<length (elements ?t). elements ?t ! j = elements ?t ! 1 \<longrightarrow> j \<le> 1"
    by (simp add: els)
  have hex: "toHex [1] = ''01''" by code_simp
  have loop: "proofLoop sampleDigest 1 [[1], [1]] [] = Inr ([[1]], [[1], [1]])" by code_simp
  from duplicate_last_wins[OF h1 h2 h3] h1 els hex loop show ?thesis by auto
qed

text \<open>
  C8, as the code has it. In the layer stack of a constructed tree every layer but the
  last has even length, the last layer has length 1, and each layer above the leaves has
  half the length of the layer below, plus one when that half is odd and greater than 1:
  \<open>getNextLayer\<close> pushes the sentinel onto the stored layer itself before it pairs it.
\<close>

theorem layer_stack_lengths:
  assumes "MerkleTree sha leaves = Inr t"
  shows "(\<forall>i. Suc i < length (layers t) \<longrightarrow> even (length (layers t ! i)))
       \<and> (\<forall>i. Suc i < length (layers t) \<longrightarrow>
            length (layers t ! Suc i) =
              (let h = length (layers t ! i) div 2 in if 1 < h \<and> odd h then h + 1 else h))
       \<and> layers t \<noteq> []
       \<and> length (last (layers t)) = 1"
proof -
  note f = constructed_fields[OF assms]
  have a: "\<forall>i. Suc i < length (layers t) \<longrightarrow> even (length (layers t ! i))"
    unfolding f(4) by (intro allI impI) (rule layerStack_even)
  have b: "\<forall>i. Suc i < length (layers t) \<longrightarrow>
            length (layers t ! Suc i) =
              (let h = length (layers t ! i) div 2 in if 1 < h \<and> odd h then h + 1 else h)"
    unfolding f(4) by (intro allI impI) (rule layerStack_next_length)
  have c: "layers t \<noteq> []" unfolding f(4) by (rule layerStack_nonempty)
  have d: "length (last (layers t)) = 1"
    using f(1,4) by (simp add: layerStack_top padEven_empty)
  from a b c d show ?thesis by blast
qed

theorem layer_stack_lengths_witness:
  "MerkleTree sampleDigest [[1], [2], [3], [4], [5]]
     = Inr (builtTree sampleDigest [[1], [2], [3], [4], [5]])
   \<and> map length (layers (builtTree sampleDigest [[1], [2], [3], [4], [5]])) = [6, 4, 2, 1]
   \<and> even (length (layers (builtTree sampleDigest [[1], [2], [3], [4], [5]]) ! 1))
   \<and> length (layers (builtTree sampleDigest [[1], [2], [3], [4], [5]]) ! 1) = 6 div 2 + 1
   \<and> length (last (layers (builtTree sampleDigest [[1], [2], [3], [4], [5]]))) = 1"
proof -
  let ?t = "builtTree sampleDigest [[1], [2], [3], [4], [5]]"
  have h: "MerkleTree sampleDigest [[1], [2], [3], [4], [5]] = Inr ?t"
    by (simp add: MerkleTree_builtTree)
  have l: "map length (layers ?t) = [6, 4, 2, 1]" by code_simp
  have n0: "Suc 0 < length (layers ?t)" by code_simp
  have n1: "Suc 1 < length (layers ?t)" by code_simp
  have l0: "length (layers ?t ! 0) = 6" by code_simp
  note th = layer_stack_lengths[OF h]
  from th n1 have e: "even (length (layers ?t ! 1))" by blast
  from th n0 have "length (layers ?t ! Suc 0) =
      (let h = length (layers ?t ! 0) div 2 in if 1 < h \<and> odd h then h + 1 else h)"
    by blast
  then have s: "length (layers ?t ! 1) = 6 div 2 + 1" unfolding l0 by (simp add: Let_def)
  from th have "length (last (layers ?t)) = 1" by blast
  with h l e s show ?thesis by simp
qed

text \<open>
  Six leaves: the stored layers have lengths 6, 4, 2, 1, and 4 is not half of 6 rounded up.
\<close>

theorem layer_halving_counterexample:
  "MerkleTree sampleDigest [[1], [2], [3], [4], [5], [6]]
     = Inr (builtTree sampleDigest [[1], [2], [3], [4], [5], [6]])
   \<and> map length (layers (builtTree sampleDigest [[1], [2], [3], [4], [5], [6]])) = [6, 4, 2, 1]
   \<and> length (layers (builtTree sampleDigest [[1], [2], [3], [4], [5], [6]]) ! 1)
       \<noteq> (length (layers (builtTree sampleDigest [[1], [2], [3], [4], [5], [6]]) ! 0) + 1) div 2"
proof -
  let ?t = "builtTree sampleDigest [[1], [2], [3], [4], [5], [6]]"
  have h: "MerkleTree sampleDigest [[1], [2], [3], [4], [5], [6]] = Inr ?t"
    by (simp add: MerkleTree_builtTree)
  have l: "map length (layers ?t) = [6, 4, 2, 1]" by code_simp
  have a: "length (layers ?t ! 1) = 4" by code_simp
  have b: "length (layers ?t ! 0) = 6" by code_simp
  from h l a b show ?thesis by simp
qed

text \<open>
  C9, what the code does for the root. For every constructed tree \<open>getHexRoot\<close> returns
  the hex digits of the root, lowercase, with no \<open>0x\<close> in front (the elements of
  \<open>getHexProof\<close> do carry the prefix, see \<open>getHexProof_prefixed\<close>).
\<close>

theorem getHexRoot_has_no_prefix:
  assumes "MerkleTree sha leaves = Inr t"
  shows "\<exists>root. getRoot t = Inr root \<and> getHexRoot t = Inr (toHex root)
           \<and> set (toHex root) \<subseteq> set hexChars \<and> take 2 (toHex root) \<noteq> ''0x''"
  using getRoot_constructed[OF assms] toHex_chars toHex_no_0x
  by (simp add: getHexRoot_def)

theorem getHexRoot_has_no_prefix_witness:
  "MerkleTree sampleDigest [[1]] = Inr (builtTree sampleDigest [[1]])
   \<and> getHexRoot (builtTree sampleDigest [[1]])
       = Inr ''0101000000000000000000000000000000000000000000000000000000000000''
   \<and> take 2 ''0101000000000000000000000000000000000000000000000000000000000000'' \<noteq> ''0x''
   \<and> map_sum id fst (getHexProof sampleDigest (builtTree sampleDigest [[1]]) [1]) = Inr [''0x'']"
proof -
  let ?t = "builtTree sampleDigest [[1]]"
  have h: "MerkleTree sampleDigest [[1]] = Inr ?t"
    by (simp add: MerkleTree_builtTree)
  have r: "getHexRoot ?t = Inr ''0101000000000000000000000000000000000000000000000000000000000000''"
    by code_simp
  have p: "map_sum id fst (getHexProof sampleDigest ?t [1]) = Inr [''0x'']"
    by code_simp
  from getHexRoot_has_no_prefix[OF h] obtain root where
    "getHexRoot ?t = Inr (toHex root)" "take 2 (toHex root) \<noteq> ''0x''" by blast
  with r have "take 2 ''0101000000000000000000000000000000000000000000000000000000000000'' \<noteq> ''0x''"
    by simp
  with h r p show ?thesis by simp
qed

text \<open>
  C10. After a construction from an odd number of leaves, the hex encoding of the
  zero-length buffer (the empty string) is a key of the position index, at the position
  of the padding sentinel, and \<open>getProof\<close> of a zero-length buffer returns a proof.
\<close>

theorem sentinel_is_retrievable:
  assumes "MerkleTree sha leaves = Inr t" and "odd (length leaves)"
  shows "toHex EMPTY = []
       \<and> bufferElementPositionIndex t [] = Some (length leaves)
       \<and> (\<exists>pf. getProof sha t EMPTY = Inr (pf, t))"
proof -
  note f = constructed_fields[OF assms(1)]
  have els: "elements t = leaves @ [EMPTY]"
    using f(2) assms(2) by (simp add: padEven_def) presburger
  then have mem: "EMPTY \<in> set (elements t)" by simp
  from index_lookup(1)[OF assms(1) mem] obtain i where i: "i < length (elements t)"
    "bufferElementPositionIndex t (toHex EMPTY) = Some i"
    "\<forall>j<length (elements t). elements t ! j = EMPTY \<longrightarrow> j \<le> i"
    by blast
  have "elements t ! length leaves = EMPTY" using els by simp
  with i(3) els have "length leaves \<le> i" by simp
  with i(1) els have "i = length leaves" by simp
  with i(2) getProof_constructed[OF assms(1) i(2)] show ?thesis
    by (simp add: EMPTY_def)
qed

theorem sentinel_is_retrievable_witness:
  "MerkleTree sampleDigest [[1], [2], [3]] = Inr (builtTree sampleDigest [[1], [2], [3]])
   \<and> odd (length [[1], [2], [3 :: byte]])
   \<and> bufferElementPositionIndex (builtTree sampleDigest [[1], [2], [3]]) [] = Some 3
   \<and> getProof sampleDigest (builtTree sampleDigest [[1], [2], [3]]) EMPTY
       = Inr ([[3], sampleDigest [1, 2]], builtTree sampleDigest [[1], [2], [3]])"
proof -
  let ?t = "builtTree sampleDigest [[1], [2], [3]]"
  have h1: "MerkleTree sampleDigest [[1], [2], [3]] = Inr ?t"
    by (simp add: MerkleTree_builtTree)
  have h2: "odd (length [[1], [2], [3 :: byte]])" by simp
  from sentinel_is_retrievable[OF h1 h2]
  obtain pf where pf: "bufferElementPositionIndex ?t [] = Some 3"
    "getProof sampleDigest ?t EMPTY = Inr (pf, ?t)"
    by auto
  have "map_sum id fst (getProof sampleDigest ?t EMPTY) = Inr [[3], sampleDigest [1, 2]]"
    by code_simp
  with pf(2) have "pf = [[3], sampleDigest [1, 2]]" by simp
  with h1 h2 pf show ?thesis by simp
qed

end
